theory Spec2Isabelle
  imports Main
begin

section \<open>The Ludo environment: constants and data\<close>

text \<open>
  The development follows \<^verbatim>\<open>MultiAgentLudoEnv.py\<close>. The four agents are the
  members of the enumeration \<^verbatim>\<open>Player\<close>; \<^verbatim>\<open>possible_agents\<close> lists them in the
  order of declaration, and \<^verbatim>\<open>possible_agents.index(agent)\<close> is the row of the
  agent in the board array.
\<close>

datatype player = RED | GREEN | BLUE | YELLOW

definition possible_agents :: "player list" where
  "possible_agents = [RED, GREEN, BLUE, YELLOW]"

fun agent_index :: "player \<Rightarrow> nat" where
  "agent_index RED = 0"
| "agent_index GREEN = 1"
| "agent_index BLUE = 2"
| "agent_index YELLOW = 3"

definition NUM_PLAYERS :: nat where
  "NUM_PLAYERS = length possible_agents"

definition NUM_TOKENS :: nat where
  "NUM_TOKENS = 4"

definition OUT_OF_BOUNDS :: int where
  "OUT_OF_BOUNDS = - 1"

definition START_SQUARE :: int where
  "START_SQUARE = 0"

definition FINAL_SQUARE :: int where
  "FINAL_SQUARE = 58"

definition start_positions :: "int list" where
  "start_positions = [0, 13, 26, 39]"

text \<open>\<^verbatim>\<open>list(range(a, b))\<close> is the list of the integers from \<open>a\<close> to \<open>b - 1\<close>.\<close>

definition range_list :: "int \<Rightarrow> int \<Rightarrow> int list" where
  "range_list a b = [a..b - 1]"

definition home_stretches :: "int list list" where
  "home_stretches =
     [range_list 51 57, range_list 12 18, range_list 25 31, range_list 38 44]"

text \<open>
  The object's fields. The board \<open>state\<close> is the 4 x 4 integer array, one row per
  player. The dictionaries keyed by agent (\<open>rewards\<close>, \<open>_cumulative_rewards\<close>,
  \<open>_dones\<close>) always hold all four agents and are total functions here.
  \<open>agent_selector\<close> is the counter held by the \<^verbatim>\<open>agent_selector\<close> object of the
  pettingzoo library. The fields \<open>agents\<close> and \<open>infos\<close> are written by \<^verbatim>\<open>reset\<close> only and
  read by nothing in the file; they are left out.
\<close>

record env =
  state :: "int list list"
  current_player :: player
  dice_roll :: int
  agent_selection :: player
  cumulative_rewards :: "player \<Rightarrow> int"
  agent_selector :: nat
  rewards :: "player \<Rightarrow> int"
  dones :: "player \<Rightarrow> bool"

text \<open>
  The selector of pettingzoo is a library class, not code of this repository. Its
  \<^verbatim>\<open>next()\<close> advances the counter modulo the number of agents and returns the agent
  one place before the new counter (Python's index \<open>-1\<close> is the last agent), so a
  new selector hands out the agents in their fixed order, round robin, starting with
  the first. \<^verbatim>\<open>reset\<close> selects Red without asking the selector, so Red also has the
  second turn of a game. The theorems about all states hold for any order of the
  turns; only the example games played from \<^verbatim>\<open>reset\<close> follow this one.
\<close>

definition selector_next :: "nat \<Rightarrow> nat \<times> player" where
  "selector_next cur =
     (let n = length possible_agents;
          cur' = (cur + 1) mod n
      in (cur', possible_agents ! ((cur' + n - 1) mod n)))"

definition reset :: env where
  "reset =
     \<lparr> state = replicate NUM_PLAYERS (replicate NUM_TOKENS OUT_OF_BOUNDS),
       current_player = RED,
       dice_roll = 0,
       agent_selection = RED,
       cumulative_rewards = (\<lambda>agent. 0),
       agent_selector = 0,
       rewards = (\<lambda>agent. 0),
       dones = (\<lambda>agent. False) \<rparr>"

section \<open>Position arithmetic\<close>

text \<open>
  \<^verbatim>\<open>_calculate_new_position\<close>. The acting player is \<^verbatim>\<open>self.agent_selection\<close>, passed
  here as \<open>agent\<close>. Python's \<open>%\<close> with a positive divisor and HOL's \<open>mod\<close> on
  \<open>int\<close> agree (both give a result in \<open>0..51\<close>).
\<close>

definition calculate_new_position :: "player \<Rightarrow> int \<Rightarrow> int \<Rightarrow> int" where
  "calculate_new_position agent current_pos steps =
     (if current_pos < 52 then
        (let new_pos = (current_pos + steps) mod 52;
             player_index = agent_index agent
         in if new_pos \<in> set (home_stretches ! player_index)
            then 52 + (new_pos - home_stretches ! player_index ! 0)
            else new_pos)
      else if current_pos < 57 then min (current_pos + steps) 58
      else current_pos)"

section \<open>Capture detection\<close>

text \<open>
  \<^verbatim>\<open>_check_capture\<close>: the two nested loops, each leaving at the first token found on
  \<open>position\<close>. The result is the board after the call and the returned value.
\<close>

fun check_pieces ::
  "int list list \<Rightarrow> int \<Rightarrow> nat \<Rightarrow> nat list \<Rightarrow> (int list list \<times> (nat \<times> nat)) option" where
  "check_pieces st position player [] = None"
| "check_pieces st position player (piece # rest) =
     (if st ! player ! piece = position
      then Some (st[player := (st ! player)[piece := OUT_OF_BOUNDS]], (player, piece))
      else check_pieces st position player rest)"

fun check_players ::
  "int list list \<Rightarrow> int \<Rightarrow> nat \<Rightarrow> nat list \<Rightarrow> (int list list \<times> (nat \<times> nat)) option" where
  "check_players st position cur [] = None"
| "check_players st position cur (player # rest) =
     (if player \<noteq> cur
      then (case check_pieces st position player [0..<NUM_TOKENS] of
              Some r \<Rightarrow> Some r
            | None \<Rightarrow> check_players st position cur rest)
      else check_players st position cur rest)"

definition check_capture ::
  "int list list \<Rightarrow> player \<Rightarrow> int \<Rightarrow> int list list \<times> (nat \<times> nat) option" where
  "check_capture st agent position =
     (if position \<in> set start_positions then (st, None)
      else (case check_players st position (agent_index agent) [0..<NUM_PLAYERS] of
              Some (st', victim) \<Rightarrow> (st', Some victim)
            | None \<Rightarrow> (st, None)))"

section \<open>Legal actions and the end of the game\<close>

text \<open>\<^verbatim>\<open>_mask_actions\<close>: the loop over the tokens writes slot \<open>token + 1\<close>.\<close>

fun mask_loop :: "int list \<Rightarrow> int \<Rightarrow> int list \<Rightarrow> nat list \<Rightarrow> int list" where
  "mask_loop row roll msk [] = msk"
| "mask_loop row roll msk (token # rest) =
     mask_loop row roll
       (if START_SQUARE \<le> row ! token \<and> row ! token \<le> FINAL_SQUARE - roll
        then msk[token + 1 := 1] else msk)
       rest"

definition mask_actions :: "env \<Rightarrow> player \<Rightarrow> int list" where
  "mask_actions s agent =
     (let msk = replicate 5 0;
          player_index = agent_index agent;
          msk = (if list_ex (\<lambda>x. x = OUT_OF_BOUNDS) (state s ! player_index) \<and> dice_roll s = 6
                 then msk[0 := 1] else msk)
      in mask_loop (state s ! player_index) (dice_roll s) msk [0..<NUM_TOKENS])"

definition check_game_over :: "int list list \<Rightarrow> bool" where
  "check_game_over st = list_ex (\<lambda>player_pieces. list_all (\<lambda>x. x = FINAL_SQUARE) player_pieces) st"

section \<open>The step\<close>

text \<open>The loop of the enter action: the first token on the bench goes to the start square.\<close>

fun enter_loop :: "int list list \<Rightarrow> nat \<Rightarrow> nat list \<Rightarrow> int list list" where
  "enter_loop st player_index [] = st"
| "enter_loop st player_index (token # rest) =
     (if st ! player_index ! token = OUT_OF_BOUNDS
      then st[player_index := (st ! player_index)[token := start_positions ! player_index]]
      else enter_loop st player_index rest)"

text \<open>
  The branch on the action (the enter action, the move of token \<open>action - 1\<close>, anything
  else), giving the new board and the reward of the turn.
\<close>

definition apply_action :: "int list list \<Rightarrow> player \<Rightarrow> int \<Rightarrow> int \<Rightarrow> int list list \<times> int" where
  "apply_action st agent action roll =
     (let player_index = agent_index agent in
      if action = 0 \<and> roll = 6 then (enter_loop st player_index [0..<NUM_TOKENS], 0)
      else if 1 \<le> action \<and> action \<le> 4 then
        (let token = nat (action - 1) in
         if st ! player_index ! token \<noteq> OUT_OF_BOUNDS then
           (let new_pos = calculate_new_position agent (st ! player_index ! token) roll;
                st1 = st[player_index := (st ! player_index)[token := new_pos]];
                (st2, captured) = check_capture st1 agent new_pos;
                reward = (if captured \<noteq> None then 1 else 0);
                reward = (if new_pos = FINAL_SQUARE then reward + 2 else reward)
            in (st2, reward))
         else (st, 0))
      else (st, 0))"

text \<open>
  \<^verbatim>\<open>step\<close>. The value drawn by \<^verbatim>\<open>np.random.randint(1, 7)\<close> is the argument \<open>roll\<close>.
  When the selected agent is done the call is handed to \<^verbatim>\<open>_was_done_step\<close> of the
  library's base class, and none of the code of the repository runs: \<open>WasDoneStep\<close>.
\<close>

datatype step_result = WasDoneStep | Stepped env

definition step_body :: "env \<Rightarrow> int \<Rightarrow> int \<Rightarrow> env" where
  "step_body s action roll =
     (let agent = agent_selection s;
          (st, reward) = apply_action (state s) agent action roll;
          s1 = s\<lparr> state := st, dice_roll := roll,
                 rewards := (rewards s)(agent := reward),
                 cumulative_rewards :=
                   (cumulative_rewards s)(agent := cumulative_rewards s agent + reward) \<rparr>
      in if check_game_over st then s1\<lparr> dones := (\<lambda>agent. True) \<rparr>
         else (let (cur, nxt) = selector_next (agent_selector s1)
               in s1\<lparr> agent_selection := nxt, agent_selector := cur \<rparr>))"

definition step :: "env \<Rightarrow> int \<Rightarrow> int \<Rightarrow> step_result" where
  "step s action roll =
     (if dones s (agent_selection s) then WasDoneStep else Stepped (step_body s action roll))"

text \<open>
  The states of a game: those after \<^verbatim>\<open>reset\<close> and any number of steps, each with a roll
  of the die between 1 and 6.
\<close>

inductive reachable :: "env \<Rightarrow> bool" where
  reachable_reset: "reachable reset"
| reachable_step:
    "reachable s \<Longrightarrow> 1 \<le> roll \<Longrightarrow> roll \<le> 6 \<Longrightarrow> step s action roll = Stepped s' \<Longrightarrow> reachable s'"

section \<open>The generator of the rolls\<close>







section \<open>Notions used in the statements\<close>

text \<open>The first value of each player's row of \<open>home_stretches\<close>.\<close>

fun entry_first :: "player \<Rightarrow> int" where
  "entry_first RED = 51"
| "entry_first GREEN = 12"
| "entry_first BLUE = 25"
| "entry_first YELLOW = 38"

text \<open>
  The cells of the shared loop \<open>0..51\<close> on which a landing of the player's own token is
  turned into a home-stretch position.
\<close>

definition entry_cells :: "player \<Rightarrow> int list" where
  "entry_cells agent = filter (\<lambda>c. c \<in> set (home_stretches ! agent_index agent)) [0..51]"

text \<open>The three domains of a token position, and the boards of the right shape.\<close>

definition on_bench :: "int \<Rightarrow> bool" where
  "on_bench x = (x = OUT_OF_BOUNDS)"

definition on_shared_loop :: "int \<Rightarrow> bool" where
  "on_shared_loop x = (0 \<le> x \<and> x \<le> 51)"

definition on_home_stretch :: "int \<Rightarrow> bool" where
  "on_home_stretch x = (52 \<le> x \<and> x \<le> 58)"

definition position_ok :: "int \<Rightarrow> bool" where
  "position_ok x = (on_bench x \<or> on_shared_loop x \<or> on_home_stretch x)"

definition board_shape :: "int list list \<Rightarrow> bool" where
  "board_shape st = (length st = NUM_PLAYERS \<and> list_all (\<lambda>row. length row = NUM_TOKENS) st)"

definition valid_board :: "int list list \<Rightarrow> bool" where
  "valid_board st = (board_shape st \<and> list_all (list_all position_ok) st)"

text \<open>
  A game driven by a list of pairs of an action and the roll drawn in that step. Like
  the loop at the end of the file, it stops stepping once the game is over.
\<close>

fun play :: "env \<Rightarrow> (int \<times> int) list \<Rightarrow> env" where
  "play s [] = s"
| "play s ((action, roll) # rest) =
     (case step s action roll of WasDoneStep \<Rightarrow> s | Stepped s' \<Rightarrow> play s' rest)"

text \<open>A state of the environment on which the mask is computed below.\<close>

definition mask_example :: env where
  "mask_example = reset \<lparr> state := [[- 1, 0, 53, 58], [- 1, - 1, - 1, - 1],
                                     [- 1, - 1, - 1, - 1], [- 1, - 1, - 1, - 1]],
                          dice_roll := 6 \<rparr>"

text \<open>
  A whole game: Red plays the first two turns (the selector is new after \<^verbatim>\<open>reset\<close>) and
  passes; then Green enters each of its four tokens with a 6 and brings it home with
  a 1 and a 4, while the other players pass with action 0 and a roll of 1.
\<close>

definition winning_game :: "(int \<times> int) list" where
  "winning_game =
     [(0, 1), (0, 1),
      (0, 6), (0, 1), (0, 1), (0, 1), (1, 1), (0, 1), (0, 1), (0, 1), (1, 4), (0, 1), (0, 1), (0, 1),
      (0, 6), (0, 1), (0, 1), (0, 1), (2, 1), (0, 1), (0, 1), (0, 1), (2, 4), (0, 1), (0, 1), (0, 1),
      (0, 6), (0, 1), (0, 1), (0, 1), (3, 1), (0, 1), (0, 1), (0, 1), (3, 4), (0, 1), (0, 1), (0, 1),
      (0, 6), (0, 1), (0, 1), (0, 1), (4, 1), (0, 1), (0, 1), (0, 1), (4, 4)]"

text \<open>
  States used as examples. In \<open>stuck_example\<close> Green's token 0 stands on 57 and Blue,
  whose token 0 is on its start square 26, is to move; \<open>freeing_game\<close> continues from
  there. In \<open>capture_example\<close> Green's token 0 is on 54 instead. \<open>other_history\<close> is
  the state after \<^verbatim>\<open>reset\<close> with another last roll and other rewards.
\<close>

definition stuck_example :: env where
  "stuck_example = reset \<lparr> state := [[- 1, - 1, - 1, - 1], [57, - 1, - 1, - 1],
                                      [26, - 1, - 1, - 1], [- 1, - 1, - 1, - 1]],
                           agent_selection := BLUE, agent_selector := 3 \<rparr>"

definition freeing_game :: "(int \<times> int) list" where
  "freeing_game =
     [(1, 4), (0, 1), (0, 1), (0, 6), (0, 1), (0, 1), (0, 1), (1, 1), (0, 1), (0, 1), (0, 1), (1, 4)]"

definition capture_example :: env where
  "capture_example = reset \<lparr> state := [[- 1, - 1, - 1, - 1], [54, - 1, - 1, - 1],
                                        [26, - 1, - 1, - 1], [- 1, - 1, - 1, - 1]],
                             agent_selection := BLUE, agent_selector := 3 \<rparr>"




section \<open>The home-entry table\<close>

lemma home_stretch_set:
  "set (home_stretches ! agent_index agent) = {entry_first agent .. entry_first agent + 5}"
  by (cases agent) (auto simp: home_stretches_def range_list_def)

lemma home_stretch_first:
  "home_stretches ! agent_index agent ! 0 = entry_first agent"
  by (cases agent) (simp_all add: home_stretches_def range_list_def upto.simps)

lemma home_stretch_hd:
  "hd (home_stretches ! agent_index agent) = home_stretches ! agent_index agent ! 0"
  by (cases agent) (simp_all add: home_stretches_def range_list_def upto.simps)

lemma mod52_range: "0 \<le> (x::int) mod 52 \<and> x mod 52 \<le> 51"
  by simp

lemma calc_loop:
  "p < 52 \<Longrightarrow> calculate_new_position agent p roll =
     (let c = (p + roll) mod 52 in
      if entry_first agent \<le> c \<and> c \<le> entry_first agent + 5
      then 52 + (c - entry_first agent) else c)"
  by (simp add: calculate_new_position_def Let_def home_stretch_set home_stretch_first)

lemma entry_cells_RED: "entry_cells RED = [51]"
  by code_simp

lemma entry_cells_GREEN: "entry_cells GREEN = [12, 13, 14, 15, 16, 17]"
  by code_simp

lemma entry_cells_BLUE: "entry_cells BLUE = [25, 26, 27, 28, 29, 30]"
  by code_simp

lemma entry_cells_YELLOW: "entry_cells YELLOW = [38, 39, 40, 41, 42, 43]"
  by code_simp

lemma entry_cells_others: "agent \<noteq> RED \<Longrightarrow> length (entry_cells agent) = 6"
  by (cases agent) (simp_all add: entry_cells_GREEN entry_cells_BLUE entry_cells_YELLOW)

section \<open>The position-advance function\<close>

text \<open>
  Claim C2. For every roll (in particular every roll from 1 to 6) the new position
  of a token of \<open>agent\<close> standing on \<open>p\<close> is: on the shared loop (\<open>p < 52\<close>) the
  candidate \<open>(p + roll) mod 52\<close>, except that a candidate inside the player's home-entry
  range becomes 52 plus its distance from the first value of the range; in the home
  stretch (\<open>52 \<le> p < 57\<close>) the minimum of \<open>p + roll\<close> and 58; on 58 the position itself.
\<close>

theorem calculate_new_position_three_domains:
  "(p < 52 \<longrightarrow>
      calculate_new_position agent p roll =
        (let candidate = (p + roll) mod 52;
             entry = home_stretches ! agent_index agent
         in if candidate \<in> set entry then 52 + (candidate - hd entry) else candidate))
   \<and> (52 \<le> p \<and> p < 57 \<longrightarrow> calculate_new_position agent p roll = min (p + roll) 58)
   \<and> (p = 58 \<longrightarrow> calculate_new_position agent p roll = p)"
  by (simp add: calculate_new_position_def Let_def home_stretch_hd)

theorem calculate_new_position_three_domains_witness:
  "(10::int) < 52 \<and> calculate_new_position GREEN 10 4 = 54
   \<and> (52::int) \<le> 55 \<and> (55::int) < 57 \<and> calculate_new_position GREEN 55 4 = 58
   \<and> calculate_new_position GREEN 58 4 = 58"
  using calculate_new_position_three_domains [of 10 GREEN 4]
    calculate_new_position_three_domains [of 55 GREEN 4]
    calculate_new_position_three_domains [of 58 GREEN 4]
  by (simp add: home_stretches_def range_list_def upto.simps)

text \<open>
  Claim C3. Red's row of the table is 51, ..., 56, and five of these six values are
  not cells of the shared loop \<open>0..51\<close>. The candidate of a token on the shared loop is
  a cell of \<open>0..51\<close>, so for Red it lies in the row exactly when it is 51, and the new
  position is then 52: Red has the single entry cell 51, while each other player
  has six entry cells, the whole of its row.
\<close>

theorem red_home_entry_single_cell:
  "home_stretches ! agent_index RED = [51, 52, 53, 54, 55, 56]
   \<and> length (filter (\<lambda>v. v < 0 \<or> 51 < v) (home_stretches ! agent_index RED)) = 5
   \<and> (p < 52 \<longrightarrow>
        0 \<le> (p + roll) mod 52 \<and> (p + roll) mod 52 \<le> 51
        \<and> ((p + roll) mod 52 \<in> set (home_stretches ! agent_index RED)
             \<longleftrightarrow> (p + roll) mod 52 = 51)
        \<and> calculate_new_position RED p roll
             = (if (p + roll) mod 52 = 51 then 52 else (p + roll) mod 52))
   \<and> entry_cells RED = [51]
   \<and> (agent \<noteq> RED \<longrightarrow> length (entry_cells agent) = 6
         \<and> set (home_stretches ! agent_index agent) = set (entry_cells agent))"
proof -
  have a: "home_stretches ! agent_index RED = [51, 52, 53, 54, 55, 56]"
    by (simp add: home_stretches_def range_list_def)
  have b: "length (filter (\<lambda>v. v < 0 \<or> 51 < v) (home_stretches ! agent_index RED)) = 5"
    by (simp add: home_stretches_def range_list_def)
  have c: "(p + roll) mod 52 \<in> set (home_stretches ! agent_index RED)
             \<longleftrightarrow> (p + roll) mod 52 = 51"
    using mod52_range [of "p + roll"] home_stretch_set [of RED] by auto
  have d: "p < 52 \<Longrightarrow> calculate_new_position RED p roll
             = (if (p + roll) mod 52 = 51 then 52 else (p + roll) mod 52)"
    using mod52_range [of "p + roll"] by (auto simp: calc_loop Let_def)
  have e: "agent \<noteq> RED \<Longrightarrow> set (home_stretches ! agent_index agent) = set (entry_cells agent)"
    unfolding entry_cells_def home_stretch_set by (cases agent) auto
  show ?thesis
    using a b c d e entry_cells_RED entry_cells_others [of agent] mod52_range [of "p + roll"]
    by blast
qed

theorem red_home_entry_single_cell_witness:
  "(45::int) < 52 \<and> calculate_new_position RED 45 6 = 52 \<and> calculate_new_position RED 49 4 = 1
   \<and> GREEN \<noteq> RED \<and> length (entry_cells GREEN) = 6"
  using red_home_entry_single_cell [of 45 6 GREEN] red_home_entry_single_cell [of 49 4 GREEN]
  by simp

text \<open>
  Claim C10. For Green, Blue and Yellow (start squares 13, 26, 39) the row of the
  table runs from the cell before the start square to the cell four after it. A
  token of such a player on its own start square is therefore sent into the home
  stretch by every roll \<open>r\<close> from 1 to 4, to \<open>52 + (start + r - first)\<close>, and it can
  finish from there: a roll of 1 followed by a roll of 4 ends on 58.
\<close>

theorem start_square_inside_entry_window:
  assumes "agent \<noteq> RED"
  shows "start_positions ! agent_index agent \<in> {13, 26, 39}
       \<and> home_stretches ! agent_index agent ! 0 = start_positions ! agent_index agent - 1
       \<and> set (home_stretches ! agent_index agent)
           = {start_positions ! agent_index agent - 1 .. start_positions ! agent_index agent + 4}
       \<and> (1 \<le> r \<and> r \<le> 4 \<longrightarrow>
            calculate_new_position agent (start_positions ! agent_index agent) r
              = 52 + (start_positions ! agent_index agent + r - home_stretches ! agent_index agent ! 0)
            \<and> 52 \<le> calculate_new_position agent (start_positions ! agent_index agent) r
            \<and> calculate_new_position agent (start_positions ! agent_index agent) r \<le> 57)
       \<and> calculate_new_position agent
            (calculate_new_position agent (start_positions ! agent_index agent) 1) 4 = FINAL_SQUARE"
proof -
  have s: "start_positions ! agent_index agent = entry_first agent + 1"
    using assms by (cases agent) (simp_all add: start_positions_def)
  have m: "(entry_first agent + 1 + x) mod 52 = entry_first agent + 1 + x"
    if "1 \<le> x" "x \<le> 4" for x
    using assms that by (cases agent) simp_all
  have lt: "entry_first agent + 1 < 52"
    using assms by (cases agent) simp_all
  have step1: "calculate_new_position agent (entry_first agent + 1) x = 54 + x - 1"
    if "1 \<le> x" "x \<le> 4" for x
    using m [of x] lt that by (simp add: calc_loop Let_def)
  have fin: "calculate_new_position agent
               (calculate_new_position agent (entry_first agent + 1) 1) 4 = 58"
    using step1 [of 1] by (simp add: calculate_new_position_def)
  have st: "entry_first agent + 1 \<in> {13, 26, 39}"
    using assms by (cases agent) simp_all
  show ?thesis
    unfolding s home_stretch_first home_stretch_set FINAL_SQUARE_def
    using step1 [of r] fin st by auto
qed

theorem start_square_inside_entry_window_witness:
  "GREEN \<noteq> RED \<and> (1::int) \<le> 4 \<and> (4::int) \<le> 4 \<and> calculate_new_position GREEN 13 4 = 57
   \<and> calculate_new_position GREEN (calculate_new_position GREEN 13 1) 4 = 58"
  using start_square_inside_entry_window [of GREEN 4]
  by (simp add: start_positions_def home_stretches_def range_list_def FINAL_SQUARE_def)

text \<open>
  In a game: Green enters token 0 with a 6 on its first turn and brings it to 58 with
  a 1 and a 4 on the next two, without a lap of the loop.
\<close>

lemma green_token_finishes_in_two_moves:
  "state (play reset [(0, 1), (0, 1), (0, 6)]) ! 1 ! 0 = 13
   \<and> state (play reset [(0, 1), (0, 1), (0, 6), (0, 1), (0, 1), (0, 1), (1, 1)]) ! 1 ! 0 = 54
   \<and> state (play reset [(0, 1), (0, 1), (0, 6), (0, 1), (0, 1), (0, 1), (1, 1),
                           (0, 1), (0, 1), (0, 1), (1, 4)]) ! 1 ! 0 = 58"
  by code_simp

section \<open>Positions stay in their domains\<close>

lemma position_ok_iff: "position_ok x \<longleftrightarrow> - 1 \<le> x \<and> x \<le> 58"
  by (auto simp: position_ok_def on_bench_def on_shared_loop_def on_home_stretch_def
      OUT_OF_BOUNDS_def)

lemma agent_index_less: "agent_index agent < 4"
  by (cases agent) simp_all

lemma list_all_upd:
  assumes "list_all Q st" and "p < length st \<Longrightarrow> Q r"
  shows "list_all Q (st[p := r])"
proof (cases "p < length st")
  case True
  have "set (st[p := r]) \<subseteq> insert r (set st)"
    by (rule set_update_subset_insert)
  then show ?thesis
    using assms True by (auto simp: list_all_iff)
next
  case False
  then show ?thesis
    using assms(1) by (simp add: list_update_beyond)
qed

lemma board_shape_upd:
  assumes "board_shape st"
  shows "board_shape (st[p := (st ! p)[k := v]])"
proof -
  have "list_all (\<lambda>row. length row = NUM_TOKENS) (st[p := (st ! p)[k := v]])"
    using assms by (intro list_all_upd) (auto simp: board_shape_def list_all_length)
  then show ?thesis
    using assms by (simp add: board_shape_def)
qed

lemma valid_board_upd:
  assumes "valid_board st" and "position_ok v"
  shows "valid_board (st[p := (st ! p)[k := v]])"
proof -
  have rows: "list_all (list_all position_ok) st"
    using assms(1) by (simp add: valid_board_def)
  have row: "list_all position_ok ((st ! p)[k := v])" if "p < length st"
  proof (rule list_all_upd)
    show "list_all position_ok (st ! p)"
      using rows that by (simp add: list_all_length)
    show "position_ok v" by (rule assms(2))
  qed
  have "list_all (list_all position_ok) (st[p := (st ! p)[k := v]])"
    using rows row by (rule list_all_upd)
  then show ?thesis
    using assms(1) board_shape_upd by (simp add: valid_board_def)
qed

lemma start_position_ok: "position_ok (start_positions ! agent_index agent)"
  by (cases agent) (simp_all add: start_positions_def position_ok_iff)

lemma calc_position_ok:
  assumes "position_ok x" and "1 \<le> roll" and "roll \<le> 6"
  shows "position_ok (calculate_new_position agent x roll)"
proof (cases "x < 52")
  case True
  then show ?thesis
    using mod52_range [of "x + roll"]
    by (auto simp: calc_loop Let_def position_ok_iff)
next
  case False
  then show ?thesis
    using assms by (auto simp: calculate_new_position_def position_ok_iff)
qed

lemma enter_loop_valid:
  "valid_board st \<Longrightarrow> valid_board (enter_loop st (agent_index agent) ts)"
  by (induction ts) (auto intro: valid_board_upd start_position_ok)

lemma bench_ok: "position_ok OUT_OF_BOUNDS"
  by (simp add: position_ok_def on_bench_def)

lemma check_pieces_valid:
  "check_pieces st pos pl ts = Some (st', v) \<Longrightarrow> valid_board st \<Longrightarrow> valid_board st'"
  by (induction ts) (auto intro: valid_board_upd bench_ok split: if_splits)

lemma check_players_valid:
  "check_players st pos cur ps = Some (st', v) \<Longrightarrow> valid_board st \<Longrightarrow> valid_board st'"
  by (induction ps) (auto dest: check_pieces_valid split: if_splits option.splits)

lemma check_capture_valid:
  "check_capture st agent pos = (st', c) \<Longrightarrow> valid_board st \<Longrightarrow> valid_board st'"
  by (auto simp: check_capture_def dest: check_players_valid split: if_splits option.splits)

lemma valid_board_nth:
  "valid_board st \<Longrightarrow> p < 4 \<Longrightarrow> k < 4 \<Longrightarrow> position_ok (st ! p ! k)"
  by (auto simp: valid_board_def board_shape_def list_all_length NUM_PLAYERS_def
      NUM_TOKENS_def possible_agents_def)

lemma apply_action_valid:
  assumes "valid_board st" and "1 \<le> roll" and "roll \<le> 6"
    and "apply_action st agent action roll = (st', reward)"
  shows "valid_board st'"
proof -
  consider (enter) "action = 0 \<and> roll = 6"
    | (move) "\<not> (action = 0 \<and> roll = 6)" "1 \<le> action" "action \<le> 4"
        "st ! agent_index agent ! nat (action - 1) \<noteq> OUT_OF_BOUNDS"
    | (none) "\<not> (action = 0 \<and> roll = 6)"
        "\<not> (1 \<le> action \<and> action \<le> 4 \<and> st ! agent_index agent ! nat (action - 1) \<noteq> OUT_OF_BOUNDS)"
    by blast
  then show ?thesis
  proof cases
    case enter
    then show ?thesis
      using assms enter_loop_valid [of st agent] by (auto simp: apply_action_def)
  next
    case move
    let ?p = "agent_index agent"
    let ?k = "nat (action - 1)"
    let ?new = "calculate_new_position agent (st ! ?p ! ?k) roll"
    let ?st1 = "st[?p := (st ! ?p)[?k := ?new]]"
    have k: "?k < 4" using move by simp
    have ok: "position_ok ?new"
      using assms k agent_index_less [of agent]
      by (intro calc_position_ok valid_board_nth) auto
    have v1: "valid_board ?st1"
      using assms(1) ok by (rule valid_board_upd)
    obtain st2 c where cc: "check_capture ?st1 agent ?new = (st2, c)"
      by (cases "check_capture ?st1 agent ?new") auto
    have "st' = st2"
      using assms(4) move cc by (auto simp: apply_action_def Let_def)
    then show ?thesis
      using check_capture_valid [OF cc v1] by simp
  next
    case none
    then show ?thesis
      using assms by (auto simp: apply_action_def Let_def split: if_splits)
  qed
qed

lemma state_step_body:
  "state (step_body s action roll) = fst (apply_action (state s) (agent_selection s) action roll)"
  by (simp add: step_body_def Let_def split: prod.splits)

lemma step_body_valid:
  assumes "valid_board (state s)" and "1 \<le> roll" and "roll \<le> 6"
  shows "valid_board (state (step_body s action roll))"
  using apply_action_valid [OF assms, of "agent_selection s" action]
  by (cases "apply_action (state s) (agent_selection s) action roll") (simp add: state_step_body)

lemma reset_valid: "valid_board (state reset)"
  by (simp add: reset_def valid_board_def board_shape_def NUM_PLAYERS_def NUM_TOKENS_def
      possible_agents_def bench_ok list_all_iff)

lemma reachable_valid: "reachable s \<Longrightarrow> valid_board (state s)"
proof (induction rule: reachable.induct)
  case reachable_reset
  show ?case by (rule reset_valid)
next
  case (reachable_step s roll action s')
  then show ?case
    using step_body_valid [of s roll action]
    by (auto simp: step_def split: if_splits)
qed

lemma less_4_cases: "k < 4 \<longleftrightarrow> k = 0 \<or> k = Suc 0 \<or> k = 2 \<or> k = (3::nat)"
  by auto

lemma all_less_4: "(\<forall>k<4. P k) \<longleftrightarrow> P 0 \<and> P (Suc 0) \<and> P 2 \<and> P (3::nat)"
  unfolding less_4_cases by blast

lemma ex_less_4: "(\<exists>k<4. P k) \<longleftrightarrow> P 0 \<or> P (Suc 0) \<or> P 2 \<or> P (3::nat)"
  using all_less_4 [of "\<lambda>k. \<not> P k"] by blast

lemma domains_exclusive:
  "position_ok x \<Longrightarrow>
     (on_bench x \<and> \<not> on_shared_loop x \<and> \<not> on_home_stretch x)
   \<or> (\<not> on_bench x \<and> on_shared_loop x \<and> \<not> on_home_stretch x)
   \<or> (\<not> on_bench x \<and> \<not> on_shared_loop x \<and> on_home_stretch x)"
  by (auto simp: position_ok_def on_bench_def on_shared_loop_def on_home_stretch_def
      OUT_OF_BOUNDS_def)

text \<open>
  Claim C6. In every state reached from \<^verbatim>\<open>reset\<close> by steps with rolls from 1 to 6, the
  board has four rows of four positions, and every position is the bench value -1, a
  cell 0..51 of the shared loop, or a value 52..58 of the home stretch, and lies in
  exactly one of these three domains.
\<close>

theorem reachable_positions_in_domains:
  assumes "reachable s"
  shows "length (state s) = 4 \<and> (\<forall>row \<in> set (state s). length row = 4)
       \<and> (\<forall>row \<in> set (state s). \<forall>x \<in> set row.
            (x = - 1 \<or> (0 \<le> x \<and> x \<le> 51) \<or> (52 \<le> x \<and> x \<le> 58))
          \<and> ((on_bench x \<and> \<not> on_shared_loop x \<and> \<not> on_home_stretch x)
             \<or> (\<not> on_bench x \<and> on_shared_loop x \<and> \<not> on_home_stretch x)
             \<or> (\<not> on_bench x \<and> \<not> on_shared_loop x \<and> on_home_stretch x)))"
proof -
  have v: "valid_board (state s)"
    using assms by (rule reachable_valid)
  then have shape: "length (state s) = 4 \<and> (\<forall>row \<in> set (state s). length row = 4)"
    by (simp add: valid_board_def board_shape_def NUM_PLAYERS_def NUM_TOKENS_def
        possible_agents_def list_all_iff)
  have ok: "position_ok x" if "row \<in> set (state s)" "x \<in> set row" for row x
    using v that by (auto simp: valid_board_def list_all_iff)
  have "(x = - 1 \<or> (0 \<le> x \<and> x \<le> 51) \<or> (52 \<le> x \<and> x \<le> 58))
          \<and> ((on_bench x \<and> \<not> on_shared_loop x \<and> \<not> on_home_stretch x)
             \<or> (\<not> on_bench x \<and> on_shared_loop x \<and> \<not> on_home_stretch x)
             \<or> (\<not> on_bench x \<and> \<not> on_shared_loop x \<and> on_home_stretch x))"
    if "row \<in> set (state s)" "x \<in> set row" for row x
    using domains_exclusive [OF ok [OF that]] ok [OF that]
    by (simp add: position_ok_def on_bench_def on_shared_loop_def on_home_stretch_def
        OUT_OF_BOUNDS_def)
  then show ?thesis
    using shape by blast
qed

theorem reachable_positions_in_domains_witness:
  "reachable (step_body reset 0 6)
   \<and> state (step_body reset 0 6) = [[0, - 1, - 1, - 1], [- 1, - 1, - 1, - 1], [- 1, - 1, - 1, - 1], [- 1, - 1, - 1, - 1]]
   \<and> on_shared_loop 0 \<and> on_bench (- 1)"
proof -
  have st: "step reset 0 6 = Stepped (step_body reset 0 6)"
    by (simp add: step_def reset_def)
  have r: "reachable (step_body reset 0 6)"
    using reachable_step [OF reachable_reset _ _ st] by simp
  have b: "state (step_body reset 0 6)
      = [[0, - 1, - 1, - 1], [- 1, - 1, - 1, - 1], [- 1, - 1, - 1, - 1], [- 1, - 1, - 1, - 1]]"
    by code_simp
  show ?thesis
    using reachable_positions_in_domains [OF r] r b by (simp add: on_shared_loop_def on_bench_def OUT_OF_BOUNDS_def)
qed

section \<open>The legality mask\<close>

lemma upt_4: "[0..<4] = [0, Suc 0, 2, 3]"
  by code_simp

lemma length_4_explicit:
  assumes "length (row::'a list) = 4"
  obtains a b c d where "row = [a, b, c, d]"
proof -
  from assms have "row = [row ! 0, row ! Suc 0, row ! 2, row ! 3]"
    by (intro nth_equalityI) (auto simp: less_4_cases nth_Cons' )
  then show ?thesis using that by blast
qed

lemma valid_board_row:
  assumes "valid_board st"
  shows "length (st ! agent_index agent) = 4 \<and> list_all position_ok (st ! agent_index agent)"
  using assms agent_index_less [of agent]
  by (simp add: valid_board_def board_shape_def list_all_length NUM_PLAYERS_def
      NUM_TOKENS_def possible_agents_def)

lemma mask_loop_explicit:
  "mask_loop [a, b, c, d] roll [m0, m1, m2, m3, m4] [0, Suc 0, 2, 3] =
     [m0,
      if 0 \<le> a \<and> a \<le> 58 - roll then 1 else m1,
      if 0 \<le> b \<and> b \<le> 58 - roll then 1 else m2,
      if 0 \<le> c \<and> c \<le> 58 - roll then 1 else m3,
      if 0 \<le> d \<and> d \<le> 58 - roll then 1 else m4]"
  by (simp add: START_SQUARE_def FINAL_SQUARE_def numeral_2_eq_2 numeral_3_eq_3)

lemma mask_actions_explicit:
  assumes "state s ! agent_index agent = [a, b, c, d]"
  shows "mask_actions s agent =
     [if (a = - 1 \<or> b = - 1 \<or> c = - 1 \<or> d = - 1) \<and> dice_roll s = 6 then 1 else 0,
      if 0 \<le> a \<and> a \<le> 58 - dice_roll s then 1 else 0,
      if 0 \<le> b \<and> b \<le> 58 - dice_roll s then 1 else 0,
      if 0 \<le> c \<and> c \<le> 58 - dice_roll s then 1 else 0,
      if 0 \<le> d \<and> d \<le> 58 - dice_roll s then 1 else 0]"
proof -
  have r: "replicate 5 (0::int) = [0, 0, 0, 0, 0]"
    by (simp add: numeral_eq_Suc)
  have front: "(if C then [0, 0, 0, 0, 0::int][0 := 1] else [0, 0, 0, 0, 0])
                 = [if C then 1 else 0, 0, 0, 0, 0]" for C
    by simp
  have le: "list_ex (\<lambda>x. x = OUT_OF_BOUNDS) [a, b, c, d]
              \<longleftrightarrow> (a = - 1 \<or> b = - 1 \<or> c = - 1 \<or> d = - 1)"
    by (simp add: OUT_OF_BOUNDS_def)
  show ?thesis
    unfolding mask_actions_def Let_def assms r NUM_TOKENS_def upt_4 le front mask_loop_explicit
    by (rule refl)
qed

text \<open>
  Claim C4. On a board of the right shape with every position in its domain, and for
  every value of the last roll, the mask has five slots, each 0 or 1. Slot 0 is 1
  exactly when the roll is 6 and some token of the player is on the bench. Slot
  \<open>k + 1\<close> is 1 exactly when token \<open>k\<close> is not on the bench and its position is at most
  \<open>FINAL_SQUARE - roll\<close>, that is, the roll does not carry it past 58.
\<close>

theorem mask_actions_legality:
  assumes "valid_board (state s)"
  shows "length (mask_actions s agent) = 5
       \<and> set (mask_actions s agent) \<subseteq> {0, 1}
       \<and> (mask_actions s agent ! 0 = 1 \<longleftrightarrow>
            dice_roll s = 6 \<and> (\<exists>k<4. state s ! agent_index agent ! k = OUT_OF_BOUNDS))
       \<and> (\<forall>k<4. mask_actions s agent ! (k + 1) = 1 \<longleftrightarrow>
            state s ! agent_index agent ! k \<noteq> OUT_OF_BOUNDS
            \<and> state s ! agent_index agent ! k \<le> FINAL_SQUARE - dice_roll s)"
proof -
  from valid_board_row [OF assms, of agent]
  have len: "length (state s ! agent_index agent) = 4"
    and ok: "list_all position_ok (state s ! agent_index agent)"
    by simp_all
  from len obtain a b c d where row: "state s ! agent_index agent = [a, b, c, d]"
    by (rule length_4_explicit)
  from ok have lo: "- 1 \<le> a" "- 1 \<le> b" "- 1 \<le> c" "- 1 \<le> d"
    by (simp_all add: row position_ok_iff)
  define m0 :: int where "m0 = (if (a = - 1 \<or> b = - 1 \<or> c = - 1 \<or> d = - 1) \<and> dice_roll s = 6 then 1 else 0)"
  define m1 :: int where "m1 = (if 0 \<le> a \<and> a \<le> 58 - dice_roll s then 1 else 0)"
  define m2 :: int where "m2 = (if 0 \<le> b \<and> b \<le> 58 - dice_roll s then 1 else 0)"
  define m3 :: int where "m3 = (if 0 \<le> c \<and> c \<le> 58 - dice_roll s then 1 else 0)"
  define m4 :: int where "m4 = (if 0 \<le> d \<and> d \<le> 58 - dice_roll s then 1 else 0)"
  have m: "mask_actions s agent = [m0, m1, m2, m3, m4]"
    unfolding m0_def m1_def m2_def m3_def m4_def using row by (rule mask_actions_explicit)
  have bits: "m0 \<in> {0, 1}" "m1 \<in> {0, 1}" "m2 \<in> {0, 1}" "m3 \<in> {0, 1}" "m4 \<in> {0, 1}"
    by (simp_all add: m0_def m1_def m2_def m3_def m4_def)
  have p1: "length (mask_actions s agent) = 5" by (simp add: m)
  have p2: "set (mask_actions s agent) \<subseteq> {0, 1}" using bits by (simp add: m)
  have p3: "mask_actions s agent ! 0 = 1 \<longleftrightarrow>
            dice_roll s = 6 \<and> (\<exists>k<4. state s ! agent_index agent ! k = OUT_OF_BOUNDS)"
    unfolding ex_less_4 row m by (auto simp: m0_def OUT_OF_BOUNDS_def numeral_2_eq_2 numeral_3_eq_3)
  have q1: "m1 = 1 \<longleftrightarrow> a \<noteq> - 1 \<and> a \<le> 58 - dice_roll s"
    using lo(1) by (auto simp: m1_def)
  have q2: "m2 = 1 \<longleftrightarrow> b \<noteq> - 1 \<and> b \<le> 58 - dice_roll s"
    using lo(2) by (auto simp: m2_def)
  have q3: "m3 = 1 \<longleftrightarrow> c \<noteq> - 1 \<and> c \<le> 58 - dice_roll s"
    using lo(3) by (auto simp: m3_def)
  have q4: "m4 = 1 \<longleftrightarrow> d \<noteq> - 1 \<and> d \<le> 58 - dice_roll s"
    using lo(4) by (auto simp: m4_def)
  have p4: "\<forall>k<4. mask_actions s agent ! (k + 1) = 1 \<longleftrightarrow>
            state s ! agent_index agent ! k \<noteq> OUT_OF_BOUNDS
            \<and> state s ! agent_index agent ! k \<le> FINAL_SQUARE - dice_roll s"
    unfolding all_less_4 row m
    by (simp add: q1 q2 q3 q4 OUT_OF_BOUNDS_def FINAL_SQUARE_def numeral_2_eq_2 numeral_3_eq_3)
  show ?thesis
    by (rule conjI [OF p1 conjI [OF p2 conjI [OF p3 p4]]])
qed

theorem mask_actions_legality_witness:
  "valid_board (state mask_example) \<and> mask_actions mask_example RED = [1, 0, 1, 0, 0]"
proof -
  have v: "valid_board (state mask_example)"
    by code_simp
  have m: "mask_actions mask_example RED = [1, 0, 1, 0, 0]"
    by code_simp
  show ?thesis
    using mask_actions_legality [OF v, of RED] v m by simp
qed

section \<open>The enter action\<close>

lemma enter_loop_find:
  "enter_loop st p ts =
     (case find (\<lambda>t. st ! p ! t = OUT_OF_BOUNDS) ts of
        None \<Rightarrow> st
      | Some t \<Rightarrow> st[p := (st ! p)[t := start_positions ! p]])"
  by (induction ts) auto

lemma find_upt_None:
  "find P [0..<n] = None \<longleftrightarrow> \<not> (\<exists>k<n. P k)"
  by (auto simp: find_None_iff)

lemma find_upt_Some:
  assumes "find P [0..<n] = Some k"
  shows "k < n \<and> P k \<and> (\<forall>j<k. \<not> P j)"
proof -
  from assms obtain i where i: "i < length [0..<n]" "P ([0..<n] ! i)" "k = [0..<n] ! i"
    "\<forall>j<i. \<not> P ([0..<n] ! j)"
    unfolding find_Some_iff by blast
  then have "k = i" by simp
  with i show ?thesis by auto
qed

lemma apply_action_enter:
  "apply_action st agent 0 roll =
     (if roll = 6 then (enter_loop st (agent_index agent) [0..<4], 0) else (st, 0))"
  by (simp add: apply_action_def NUM_TOKENS_def)

lemma board_shape_lengths:
  "board_shape st \<Longrightarrow> length st = 4 \<and> (\<forall>q<4. length (st ! q) = 4)"
  by (simp add: board_shape_def NUM_PLAYERS_def NUM_TOKENS_def possible_agents_def
      list_all_length)

lemma nth_board_upd:
  assumes "board_shape st" and "p < 4" and "k < 4"
  shows "st[p := (st ! p)[k := v]] ! p ! k = v"
    and "q < 4 \<Longrightarrow> j < 4 \<Longrightarrow> (q, j) \<noteq> (p, k) \<Longrightarrow> st[p := (st ! p)[k := v]] ! q ! j = st ! q ! j"
  using assms board_shape_lengths [OF assms(1)]
  by (auto simp: nth_list_update)

text \<open>
  Claim C5. On a board of the right shape, when the selected agent is not done, a
  step with action 0 returns, and: if the roll is 6 and the player has a token on the
  bench, the bench token of lowest index \<open>k\<close> goes to the player's start square and
  every other position of the board is as before; otherwise (the roll is not 6, or no
  token of the player is on the bench) the board is as before.
\<close>

theorem enter_action_moves_first_bench_token:
  assumes "board_shape (state s)" and "\<not> dones s (agent_selection s)"
  shows "\<exists>s'. step s 0 roll = Stepped s' \<and>
          (if roll = 6 \<and> (\<exists>k<4. state s ! agent_index (agent_selection s) ! k = OUT_OF_BOUNDS)
           then \<exists>k<4. state s ! agent_index (agent_selection s) ! k = OUT_OF_BOUNDS
                  \<and> (\<forall>j<k. state s ! agent_index (agent_selection s) ! j \<noteq> OUT_OF_BOUNDS)
                  \<and> state s' ! agent_index (agent_selection s) ! k
                      = start_positions ! agent_index (agent_selection s)
                  \<and> (\<forall>q<4. \<forall>j<4. (q, j) \<noteq> (agent_index (agent_selection s), k) \<longrightarrow>
                        state s' ! q ! j = state s ! q ! j)
           else state s' = state s)"
proof -
  let ?p = "agent_index (agent_selection s)"
  let ?st = "state s"
  let ?P = "\<lambda>t. ?st ! ?p ! t = OUT_OF_BOUNDS"
  have stp: "step s 0 roll = Stepped (step_body s 0 roll)"
    using assms(2) by (simp add: step_def)
  have st': "state (step_body s 0 roll)
      = (if roll = 6 then enter_loop ?st ?p [0..<4] else ?st)"
    by (simp add: state_step_body apply_action_enter)
  have main: "if roll = 6 \<and> (\<exists>k<4. ?P k)
           then \<exists>k<4. ?P k \<and> (\<forall>j<k. \<not> ?P j)
                  \<and> state (step_body s 0 roll) ! ?p ! k = start_positions ! ?p
                  \<and> (\<forall>q<4. \<forall>j<4. (q, j) \<noteq> (?p, k) \<longrightarrow>
                        state (step_body s 0 roll) ! q ! j = ?st ! q ! j)
           else state (step_body s 0 roll) = ?st"
  proof (cases "roll = 6 \<and> (\<exists>k<4. ?P k)")
    case True
    then have "find ?P [0..<4] \<noteq> None"
      by (simp add: find_upt_None)
    then obtain k where k: "find ?P [0..<4] = Some k" by blast
    from find_upt_Some [OF k] have kk: "k < 4" "?P k" "\<forall>j<k. \<not> ?P j" by simp_all
    have e: "state (step_body s 0 roll) = ?st[?p := (?st ! ?p)[k := start_positions ! ?p]]"
      unfolding st' enter_loop_find using True k by simp
    have "state (step_body s 0 roll) ! ?p ! k = start_positions ! ?p"
      unfolding e using assms(1) agent_index_less kk(1) by (rule nth_board_upd(1))
    moreover have "\<forall>q<4. \<forall>j<4. (q, j) \<noteq> (?p, k) \<longrightarrow>
                        state (step_body s 0 roll) ! q ! j = ?st ! q ! j"
      unfolding e using nth_board_upd(2) [OF assms(1) agent_index_less kk(1)] by blast
    ultimately show ?thesis
      using True kk by auto
  next
    case False
    then have e: "state (step_body s 0 roll) = ?st"
      unfolding st' enter_loop_find
      by (auto dest: find_upt_Some split: option.splits)
    show ?thesis
      by (subst if_not_P [OF False]) (rule e)
  qed
  show ?thesis
    using stp main by blast
qed

theorem enter_action_moves_first_bench_token_witness:
  "board_shape (state reset) \<and> \<not> dones reset (agent_selection reset)
   \<and> (\<exists>s'. step reset 0 6 = Stepped s'
          \<and> state s' ! 0 ! 0 = 0
          \<and> (\<forall>q<4. \<forall>j<4. (q, j) \<noteq> (0, 0) \<longrightarrow> state s' ! q ! j = - 1))
   \<and> (\<exists>s'. step reset 0 3 = Stepped s' \<and> state s' = state reset)"
proof -
  have a: "board_shape (state reset)"
    by code_simp
  have b: "\<not> dones reset (agent_selection reset)"
    by (simp add: reset_def)
  have p: "agent_index (agent_selection reset) = 0"
    by (simp add: reset_def)
  have bench: "state reset ! q ! j = - 1" if "q < 4" "j < 4" for q j
    using that
    by (auto simp: less_4_cases reset_def NUM_PLAYERS_def NUM_TOKENS_def possible_agents_def
        OUT_OF_BOUNDS_def)
  have c: "\<exists>k<4. state reset ! 0 ! k = OUT_OF_BOUNDS"
    using bench [of 0 0] by (intro exI [of _ 0]) (simp add: OUT_OF_BOUNDS_def)
  from enter_action_moves_first_bench_token [OF a b, of 6] c obtain s' k where s': "step reset 0 6 = Stepped s'"
    and k: "k < 4" "\<forall>j<k. state reset ! 0 ! j \<noteq> OUT_OF_BOUNDS"
      "state s' ! 0 ! k = start_positions ! 0"
      "\<forall>q<4. \<forall>j<4. (q, j) \<noteq> (0, k) \<longrightarrow> state s' ! q ! j = state reset ! q ! j"
    unfolding p by auto
  have k0: "k = 0"
  proof (rule ccontr)
    assume "k \<noteq> 0"
    then have "0 < k" by simp
    with k(2) have "state reset ! 0 ! 0 \<noteq> OUT_OF_BOUNDS" by blast
    then show False using bench [of 0 0] by (simp add: OUT_OF_BOUNDS_def)
  qed
  have six: "\<exists>s'. step reset 0 6 = Stepped s' \<and> state s' ! 0 ! 0 = 0
          \<and> (\<forall>q<4. \<forall>j<4. (q, j) \<noteq> (0, 0) \<longrightarrow> state s' ! q ! j = - 1)"
    using s' k(3,4) bench unfolding k0 by (auto simp: start_positions_def)
  from enter_action_moves_first_bench_token [OF a b, of 3]
  have three: "\<exists>s'. step reset 0 3 = Stepped s' \<and> state s' = state reset"
    by simp
  show ?thesis
    using a b six three by blast
qed

section \<open>The end of the game\<close>

lemma dones_step_body:
  "dones (step_body s action roll) =
     (if check_game_over (state (step_body s action roll)) then (\<lambda>agent. True) else dones s)"
  by (simp add: step_body_def Let_def split: prod.splits)

lemma check_game_over_iff:
  assumes "board_shape st"
  shows "check_game_over st \<longleftrightarrow> (\<exists>p<4. \<forall>k<4. st ! p ! k = FINAL_SQUARE)"
  using board_shape_lengths [OF assms]
  by (auto simp: check_game_over_def list_ex_length list_all_length)

lemma reset_not_over: "\<not> check_game_over (state reset)"
  by code_simp

lemma reachable_dones:
  "reachable s \<Longrightarrow> dones s agent \<longleftrightarrow> check_game_over (state s)"
proof (induction arbitrary: agent rule: reachable.induct)
  case reachable_reset
  show ?case using reset_not_over by (simp add: reset_def)
next
  case (reachable_step s roll action s')
  from reachable_step.hyps(4) have nd: "\<not> dones s (agent_selection s)"
    and s': "s' = step_body s action roll"
    by (auto simp: step_def split: if_splits)
  from nd reachable_step.IH have "\<not> check_game_over (state s)" by blast
  with reachable_step.IH have "dones s = (\<lambda>agent. False)" by auto
  then show ?case
    unfolding s' by (simp add: dones_step_body)
qed

text \<open>
  Claim C7. In every state reached from \<^verbatim>\<open>reset\<close>, the done-flag of every agent is true
  exactly when some player has all four tokens on 58. If a flag is true, all four
  are, and \<^verbatim>\<open>step\<close> only hands the call to the library and runs none of the code that
  writes the flags, so they stay true; \<^verbatim>\<open>reset\<close> sets them all to false. If the flags
  are false, a step (roll from 1 to 6) returns a state in which all four flags are
  true when some player then has all four tokens on 58, and all four false when not.
\<close>

theorem done_flags_follow_game_over:
  assumes "reachable s"
  shows "(dones s agent \<longleftrightarrow> (\<exists>p<4. \<forall>k<4. state s ! p ! k = FINAL_SQUARE))
       \<and> (dones s agent \<longrightarrow> (\<forall>other. dones s other) \<and> step s action roll = WasDoneStep)
       \<and> (\<not> dones s agent \<and> 1 \<le> roll \<and> roll \<le> 6 \<longrightarrow>
            (\<exists>s'. step s action roll = Stepped s' \<and> reachable s'
               \<and> (if \<exists>p<4. \<forall>k<4. state s' ! p ! k = FINAL_SQUARE
                   then \<forall>other. dones s' other else \<forall>other. \<not> dones s' other)))
       \<and> (\<forall>other. \<not> dones reset other)"
proof -
  have shape: "board_shape (state t)" if "reachable t" for t
    using reachable_valid [OF that] by (simp add: valid_board_def)
  have inv: "dones t a \<longleftrightarrow> (\<exists>p<4. \<forall>k<4. state t ! p ! k = FINAL_SQUARE)"
    if "reachable t" for t a
    using reachable_dones [OF that] check_game_over_iff [OF shape [OF that]] by simp
  have p1: "dones s agent \<longleftrightarrow> (\<exists>p<4. \<forall>k<4. state s ! p ! k = FINAL_SQUARE)"
    using assms by (rule inv)
  have p2: "dones s agent \<longrightarrow> (\<forall>other. dones s other) \<and> step s action roll = WasDoneStep"
    using inv [OF assms] by (simp add: step_def)
  have p3: "\<not> dones s agent \<and> 1 \<le> roll \<and> roll \<le> 6 \<longrightarrow>
            (\<exists>s'. step s action roll = Stepped s' \<and> reachable s'
               \<and> (if \<exists>p<4. \<forall>k<4. state s' ! p ! k = FINAL_SQUARE
                   then \<forall>other. dones s' other else \<forall>other. \<not> dones s' other))"
  proof
    assume a: "\<not> dones s agent \<and> 1 \<le> roll \<and> roll \<le> 6"
    then have "\<not> dones s (agent_selection s)"
      using inv [OF assms] by simp
    then have st: "step s action roll = Stepped (step_body s action roll)"
      by (simp add: step_def)
    have r: "reachable (step_body s action roll)"
      using assms a st by (blast intro: reachable_step)
    show "\<exists>s'. step s action roll = Stepped s' \<and> reachable s'
               \<and> (if \<exists>p<4. \<forall>k<4. state s' ! p ! k = FINAL_SQUARE
                   then \<forall>other. dones s' other else \<forall>other. \<not> dones s' other)"
      using st r inv [OF r] by auto
  qed
  have p4: "\<forall>other. \<not> dones reset other"
    by (simp add: reset_def)
  show ?thesis
    by (rule conjI [OF p1 conjI [OF p2 conjI [OF p3 p4]]])
qed

lemma play_reachable:
  "reachable s \<Longrightarrow> list_all (\<lambda>(action, roll). 1 \<le> roll \<and> roll \<le> 6) tr \<Longrightarrow> reachable (play s tr)"
proof (induction tr arbitrary: s)
  case Nil
  then show ?case by simp
next
  case (Cons x tr)
  obtain action roll where x: "x = (action, roll)" by (cases x)
  show ?case
  proof (cases "step s action roll")
    case WasDoneStep
    then show ?thesis using Cons.prems x by simp
  next
    case (Stepped s')
    have "reachable s'"
      using Cons.prems x Stepped by (auto intro: reachable_step)
    then show ?thesis
      using Cons.IH [of s'] Cons.prems x Stepped by simp
  qed
qed

theorem done_flags_follow_game_over_witness:
  "reachable (play reset winning_game)
   \<and> state (play reset winning_game) ! 1 = [58, 58, 58, 58]
   \<and> (\<forall>other. dones (play reset winning_game) other)
   \<and> step (play reset winning_game) 1 3 = WasDoneStep
   \<and> \<not> dones reset RED \<and> (1::int) \<le> 6 \<and> (6::int) \<le> 6
   \<and> (\<exists>s'. step reset 0 6 = Stepped s' \<and> reachable s')"
proof -
  have rolls: "list_all (\<lambda>(action, roll). 1 \<le> roll \<and> roll \<le> 6) winning_game"
    by code_simp
  have r: "reachable (play reset winning_game)"
    using reachable_reset rolls by (rule play_reachable)
  have b: "state (play reset winning_game) ! 1 = [58, 58, 58, 58]"
    by code_simp
  have d: "dones (play reset winning_game) RED"
    by code_simp
  have n: "\<not> dones reset RED"
    by (simp add: reset_def)
  from done_flags_follow_game_over [OF r, of RED 1 3] d
  have e: "(\<forall>other. dones (play reset winning_game) other)
            \<and> step (play reset winning_game) 1 3 = WasDoneStep"
    by blast
  from done_flags_follow_game_over [OF reachable_reset, of RED 0 6] n
  have s: "\<exists>s'. step reset 0 6 = Stepped s' \<and> reachable s'"
    by auto
  show ?thesis
    using r b e n s by simp
qed

section \<open>Tokens on 57\<close>

lemma check_pieces_other_row:
  "check_pieces st pos pl ts = Some (st', v) \<Longrightarrow> pl \<noteq> q \<Longrightarrow> st' ! q = st ! q"
  by (induction ts) (auto split: if_splits)

lemma check_players_own_row:
  "check_players st pos cur ps = Some (st', v) \<Longrightarrow> st' ! cur = st ! cur"
  by (induction ps) (auto dest: check_pieces_other_row split: if_splits option.splits)

lemma check_capture_own_row:
  "check_capture st agent pos = (st', c) \<Longrightarrow> st' ! agent_index agent = st ! agent_index agent"
  by (auto simp: check_capture_def dest: check_players_own_row split: if_splits option.splits)

lemma enter_loop_keeps_token:
  assumes "st ! p ! k \<noteq> OUT_OF_BOUNDS"
  shows "enter_loop st p ts ! p ! k = st ! p ! k"
proof (cases "find (\<lambda>t. st ! p ! t = OUT_OF_BOUNDS) ts")
  case None
  then show ?thesis by (simp add: enter_loop_find)
next
  case (Some t)
  then have "st ! p ! t = OUT_OF_BOUNDS"
    by (auto simp: find_Some_iff)
  with assms have tk: "t \<noteq> k" by auto
  show ?thesis
  proof (cases "p < length st")
    case True
    then show ?thesis using Some tk by (simp add: enter_loop_find)
  next
    case False
    then show ?thesis using Some by (simp add: enter_loop_find list_update_beyond)
  qed
qed

lemma calc_57: "calculate_new_position agent 57 roll = 57"
  by (simp add: calculate_new_position_def)

lemma apply_action_keeps_57:
  assumes "board_shape st" and "k < 4" and "st ! agent_index agent ! k = 57"
  shows "fst (apply_action st agent action roll) ! agent_index agent ! k = 57"
proof -
  let ?p = "agent_index agent"
  have nb: "st ! ?p ! k \<noteq> OUT_OF_BOUNDS"
    using assms(3) by (simp add: OUT_OF_BOUNDS_def)
  consider (enter) "action = 0 \<and> roll = 6"
    | (move) "\<not> (action = 0 \<and> roll = 6)" "1 \<le> action" "action \<le> 4"
        "st ! ?p ! nat (action - 1) \<noteq> OUT_OF_BOUNDS"
    | (none) "\<not> (action = 0 \<and> roll = 6)"
        "\<not> (1 \<le> action \<and> action \<le> 4 \<and> st ! ?p ! nat (action - 1) \<noteq> OUT_OF_BOUNDS)"
    by blast
  then show ?thesis
  proof cases
    case enter
    then show ?thesis
      using enter_loop_keeps_token [OF nb] assms(3) by (simp add: apply_action_def)
  next
    case move
    let ?j = "nat (action - 1)"
    let ?new = "calculate_new_position agent (st ! ?p ! ?j) roll"
    let ?st1 = "st[?p := (st ! ?p)[?j := ?new]]"
    have j: "?j < 4" using move by simp
    have one: "?st1 ! ?p ! k = 57"
    proof (cases "?j = k")
      case True
      then have "?new = 57" using assms(3) by (simp add: calc_57)
      then show ?thesis
        using nth_board_upd(1) [OF assms(1) agent_index_less j, of agent ?new] True by simp
    next
      case False
      then show ?thesis
        using nth_board_upd(2) [OF assms(1) agent_index_less j agent_index_less assms(2),
            of agent agent ?new] assms(3)
        by simp
    qed
    obtain st2 c where cc: "check_capture ?st1 agent ?new = (st2, c)"
      by (cases "check_capture ?st1 agent ?new") auto
    have "fst (apply_action st agent action roll) = st2"
      using move cc by (auto simp: apply_action_def Let_def)
    then show ?thesis
      using check_capture_own_row [OF cc] one by simp
  next
    case none
    then show ?thesis
      using assms(3) by (auto simp: apply_action_def Let_def split: if_splits)
  qed
qed

lemma nth_update_cases: "xs[j := v] ! k = xs ! k \<or> xs[j := v] ! k = v"
  by (cases "j < length xs") (auto simp: nth_list_update list_update_beyond)

lemma nth_nth_update_cases:
  "st[p := (st ! p)[j := v]] ! q ! k = st ! q ! k \<or> st[p := (st ! p)[j := v]] ! q ! k = v"
proof (cases "p < length st \<and> q = p")
  case True
  then show ?thesis
    using nth_update_cases [of "st ! p" j v k] by simp
next
  case False
  then show ?thesis
    by (cases "p < length st") (auto simp: nth_list_update list_update_beyond)
qed

lemma check_pieces_cell:
  "check_pieces st pos pl ts = Some (st', v) \<Longrightarrow>
     st' ! q ! k = st ! q ! k \<or> st' ! q ! k = OUT_OF_BOUNDS"
proof (induction ts)
  case Nil
  then show ?case by simp
next
  case (Cons piece rest)
  show ?case
  proof (cases "st ! pl ! piece = pos")
    case True
    with Cons.prems have "st' = st[pl := (st ! pl)[piece := OUT_OF_BOUNDS]]" by simp
    then show ?thesis
      using nth_nth_update_cases [of st pl piece OUT_OF_BOUNDS q k] by simp
  next
    case False
    with Cons show ?thesis by simp
  qed
qed

lemma check_players_cell:
  "check_players st pos cur ps = Some (st', v) \<Longrightarrow>
     st' ! q ! k = st ! q ! k \<or> st' ! q ! k = OUT_OF_BOUNDS"
  by (induction ps) (auto dest: check_pieces_cell split: if_splits option.splits)

lemma check_capture_cell:
  "check_capture st agent pos = (st', c) \<Longrightarrow>
     st' ! q ! k = st ! q ! k \<or> st' ! q ! k = OUT_OF_BOUNDS"
  by (auto simp: check_capture_def dest: check_players_cell split: if_splits option.splits)

lemma enter_loop_other_row:
  "q \<noteq> p \<Longrightarrow> enter_loop st p ts ! q = st ! q"
  by (simp add: enter_loop_find split: option.splits)

lemma apply_action_other_row_57:
  assumes "q \<noteq> agent_index agent" and "st ! q ! k = 57"
  shows "fst (apply_action st agent action roll) ! q ! k = 57
       \<or> fst (apply_action st agent action roll) ! q ! k = OUT_OF_BOUNDS"
proof -
  let ?p = "agent_index agent"
  consider (enter) "action = 0 \<and> roll = 6"
    | (move) "\<not> (action = 0 \<and> roll = 6)" "1 \<le> action" "action \<le> 4"
        "st ! ?p ! nat (action - 1) \<noteq> OUT_OF_BOUNDS"
    | (none) "\<not> (action = 0 \<and> roll = 6)"
        "\<not> (1 \<le> action \<and> action \<le> 4 \<and> st ! ?p ! nat (action - 1) \<noteq> OUT_OF_BOUNDS)"
    by blast
  then show ?thesis
  proof cases
    case enter
    then show ?thesis
      using enter_loop_other_row [OF assms(1)] assms(2) by (simp add: apply_action_def)
  next
    case move
    let ?j = "nat (action - 1)"
    let ?new = "calculate_new_position agent (st ! ?p ! ?j) roll"
    let ?st1 = "st[?p := (st ! ?p)[?j := ?new]]"
    have one: "?st1 ! q ! k = 57"
      using assms by simp
    obtain st2 c where cc: "check_capture ?st1 agent ?new = (st2, c)"
      by (cases "check_capture ?st1 agent ?new") auto
    have "fst (apply_action st agent action roll) = st2"
      using move cc by (auto simp: apply_action_def Let_def)
    then show ?thesis
      using check_capture_cell [OF cc, of q k] one by simp
  next
    case none
    then show ?thesis
      using assms(2) by (auto simp: apply_action_def Let_def split: if_splits)
  qed
qed

lemma step_keeps_57_or_benches:
  assumes "board_shape (state s)" and "\<not> dones s (agent_selection s)"
    and "q < 4" and "k < 4" and "state s ! q ! k = 57"
  shows "\<exists>s'. step s action roll = Stepped s'
          \<and> (state s' ! q ! k = 57 \<or> state s' ! q ! k = OUT_OF_BOUNDS)
          \<and> (q = agent_index (agent_selection s) \<longrightarrow> state s' ! q ! k = 57)"
proof -
  have st: "step s action roll = Stepped (step_body s action roll)"
    using assms(2) by (simp add: step_def)
  have own: "state (step_body s action roll) ! q ! k = 57"
    if "q = agent_index (agent_selection s)"
    unfolding state_step_body that
    using assms(1,4) assms(5) [unfolded that] by (rule apply_action_keeps_57)
  have other: "state (step_body s action roll) ! q ! k = 57
       \<or> state (step_body s action roll) ! q ! k = OUT_OF_BOUNDS"
    if "q \<noteq> agent_index (agent_selection s)"
    unfolding state_step_body using that assms(5) by (rule apply_action_other_row_57)
  show ?thesis
    using st own other by blast
qed

text \<open>
  Claim C9, evaluated on the code. The first half holds: the position-advance function
  returns 57 for a token on 57 (\<open>calc_57\<close>), and no step moves such a token
  forward (\<open>step_keeps_57_or_benches\<close>). But the token is not on 57 for ever. In
  \<open>stuck_example\<close> Blue moves its token from 26 with a roll of 4 and lands on 57; the
  capture check compares the home-stretch values of different players and sends
  Green's token from 57 to the bench. Green then enters it again with a 6 and brings
  it to 58 with a 1 and a 4.
\<close>

theorem token_on_57_captured_then_finishes:
  "state stuck_example ! 1 ! 0 = 57
   \<and> calculate_new_position GREEN 57 4 = 57
   \<and> calculate_new_position BLUE 26 4 = 57
   \<and> state (play stuck_example [(1, 4)])
       = [[- 1, - 1, - 1, - 1], [- 1, - 1, - 1, - 1], [57, - 1, - 1, - 1], [- 1, - 1, - 1, - 1]]
   \<and> state (play stuck_example freeing_game) ! 1 ! 0 = 58"
  by code_simp

text \<open>The board of \<open>stuck_example\<close>, with Blue to move, arises in a game from \<^verbatim>\<open>reset\<close>.\<close>

lemma stuck_example_from_reset:
  "state (play reset [(0, 1), (0, 1), (0, 6), (0, 6), (0, 1), (0, 1), (1, 4)]) = state stuck_example
   \<and> agent_selection (play reset [(0, 1), (0, 1), (0, 6), (0, 6), (0, 1), (0, 1), (1, 4)]) = BLUE
   \<and> agent_selector (play reset [(0, 1), (0, 1), (0, 6), (0, 6), (0, 1), (0, 1), (1, 4)]) = 3"
  by code_simp

section \<open>Landing in the home stretch\<close>

text \<open>
  Claim C1, evaluated on the code. From \<open>capture_example\<close> Blue moves its token from 26
  with a roll of 1 and lands on 54, a value of the home stretch. \<^verbatim>\<open>_check_capture\<close> only
  exempts the four start squares; it finds Green's token on the equal value 54,
  writes -1 over it and returns it, and Blue gets the capture reward 1.
\<close>

theorem home_stretch_landing_captures:
  "calculate_new_position BLUE 26 1 = 54
   \<and> check_capture [[- 1, - 1, - 1, - 1], [54, - 1, - 1, - 1], [54, - 1, - 1, - 1], [- 1, - 1, - 1, - 1]]
        BLUE 54
      = ([[- 1, - 1, - 1, - 1], [- 1, - 1, - 1, - 1], [54, - 1, - 1, - 1], [- 1, - 1, - 1, - 1]],
         Some (1, 0))
   \<and> \<not> dones capture_example (agent_selection capture_example)
   \<and> state (play capture_example [(1, 1)])
      = [[- 1, - 1, - 1, - 1], [- 1, - 1, - 1, - 1], [54, - 1, - 1, - 1], [- 1, - 1, - 1, - 1]]
   \<and> rewards (play capture_example [(1, 1)]) BLUE = 1"
  by code_simp

lemma capture_example_from_reset:
  "state (play reset [(0, 1), (0, 1), (0, 6), (0, 6), (0, 1), (0, 1), (1, 1)]) = state capture_example
   \<and> agent_selection (play reset [(0, 1), (0, 1), (0, 6), (0, 6), (0, 1), (0, 1), (1, 1)]) = BLUE
   \<and> agent_selector (play reset [(0, 1), (0, 1), (0, 6), (0, 6), (0, 1), (0, 1), (1, 1)]) = 3"
  by code_simp

section \<open>The roll and the result of a step\<close>










end
